theory Spec2Isabelle
  imports Complex_Main "HOL-Library.Word" "HOL-Library.Multiset"
begin

section \<open>Values of the Go runtime that the detector handles\<close>

text \<open>
  The detector of \<^verbatim>\<open>src/main.go\<close> works on three kinds of values that come from
  the Go language and its standard library, not from the repository: \<^verbatim>\<open>float64\<close>
  amounts, \<^verbatim>\<open>time.Time\<close> instants and \<^verbatim>\<open>time.Duration\<close> spans. They are modelled
  here from the language specification and the library documentation.
\<close>

subsection \<open>float64\<close>

text \<open>
  A \<^verbatim>\<open>float64\<close> is a finite number, a negative zero, an infinity or a NaN. Finite
  values are carried as rationals: every finite IEEE-754 value is a rational, so a
  statement about all rationals covers all finite floats. \<^verbatim>\<open>strconv.ParseFloat\<close>, which
  the CSV reader calls, accepts the spellings of the infinities and of NaN, so these
  values can reach the detector.
\<close>

datatype float64 = Finite rat | NegZero | PosInf | NegInf | NaN

fun f64_rat :: "float64 \<Rightarrow> rat" where
  "f64_rat (Finite q) = q"
| "f64_rat _ = 0"

text \<open>The comparison \<^verbatim>\<open>x > y\<close> of IEEE-754: false as soon as one side is a NaN.\<close>

fun f64_gt :: "float64 \<Rightarrow> float64 \<Rightarrow> bool" where
  "f64_gt NaN y = False"
| "f64_gt x NaN = False"
| "f64_gt x PosInf = False"
| "f64_gt PosInf y = True"
| "f64_gt NegInf y = False"
| "f64_gt x NegInf = True"
| "f64_gt x y = (f64_rat y < f64_rat x)"

text \<open>Decimal digits of a natural number, most significant first.\<close>

definition digit :: "nat \<Rightarrow> char" where
  "digit d = ''0123456789'' ! (d mod 10)"

fun digits :: "nat \<Rightarrow> string" where
  "digits n = (if n < 10 then [digit n] else digits (n div 10) @ [digit (n mod 10)])"

declare digits.simps [simp del]

text \<open>
  Rounding of a non-negative rational to the nearest natural number, a tie going to
  the even neighbour: the rounding of \<^verbatim>\<open>strconv.FormatFloat\<close>.
\<close>

definition round_half_even :: "rat \<Rightarrow> nat" where
  "round_half_even q =
     (let f = nat \<lfloor>q\<rfloor>; r = q - of_int \<lfloor>q\<rfloor>
      in if r < 1 / 2 then f
         else if 1 / 2 < r then f + 1
         else if even f then f else f + 1)"

text \<open>The verb \<^verbatim>\<open>%.2f\<close> of \<^verbatim>\<open>fmt.Sprintf\<close> on a \<^verbatim>\<open>float64\<close>.\<close>

definition fmt_2f :: "float64 \<Rightarrow> string" where
  "fmt_2f x =
     (case x of
        NaN \<Rightarrow> ''NaN''
      | PosInf \<Rightarrow> ''+Inf''
      | NegInf \<Rightarrow> ''-Inf''
      | NegZero \<Rightarrow> ''-0.00''
      | Finite q \<Rightarrow>
          (let n = round_half_even (\<bar>q\<bar> * 100)
           in (if q < 0 then ''-'' else [])
              @ digits (n div 100) @ ''.'' @ [digit (n div 10), digit n]))"

subsection \<open>time.Time and time.Duration\<close>

text \<open>
  A \<^verbatim>\<open>time.Duration\<close> is a signed 64-bit count of nanoseconds. A \<^verbatim>\<open>time.Time\<close> is an
  instant together with a location; the instant is counted here in nanoseconds from a
  fixed epoch, the location is kept as its offset in seconds.
\<close>

type_synonym Duration = "64 word"

record Time =
  instant :: int
  zone :: int

definition minDuration :: Duration where
  "minDuration = word_of_int (- (2 ^ 63))"

definition maxDuration :: Duration where
  "maxDuration = word_of_int (2 ^ 63 - 1)"

text \<open>
  \<^verbatim>\<open>t.Sub(u)\<close>: the duration \<^verbatim>\<open>t - u\<close>; when it does not fit a \<^verbatim>\<open>Duration\<close> the
  library returns the minimum or the maximum duration.
\<close>

definition Sub :: "Time \<Rightarrow> Time \<Rightarrow> Duration" where
  "Sub t u =
     (let d = instant t - instant u
      in if d < - (2 ^ 63) then minDuration
         else if 2 ^ 63 - 1 < d then maxDuration
         else word_of_int d)"

text \<open>
  \<^verbatim>\<open>Duration.String\<close>, which the verb \<^verbatim>\<open>%v\<close> prints. \<open>fmtFrac\<close> drops \<open>prec\<close> decimal
  digits of \<open>v\<close> and prints them as a fraction without trailing zeros; \<open>fmtInt\<close> prints
  an integer.
\<close>

function fmtFrac_loop :: "nat \<Rightarrow> nat \<Rightarrow> nat \<Rightarrow> bool \<Rightarrow> string \<Rightarrow> string \<times> nat" where
  "fmtFrac_loop v prec i print buf =
     (if i < prec then
        (let d = v mod 10; print' = (print \<or> d \<noteq> 0)
         in fmtFrac_loop (v div 10) prec (i + 1) print' (if print' then digit d # buf else buf))
      else ((if print then ''.'' @ buf else buf), v))"
  by pat_completeness auto
termination
  by (relation "measure (\<lambda>(v, prec, i, print, buf). prec - i)") auto

declare fmtFrac_loop.simps [simp del]

definition fmtFrac :: "nat \<Rightarrow> nat \<Rightarrow> string \<times> nat" where
  "fmtFrac v prec = fmtFrac_loop v prec 0 False []"

definition fmtInt :: "nat \<Rightarrow> string" where
  "fmtInt v = digits v"

definition Duration_String :: "Duration \<Rightarrow> string" where
  "Duration_String d =
     (let neg = (sint d < 0);
          u = nat \<bar>sint d\<bar>;
          body =
            (if u < 1000000000 then
               (if u = 0 then ''0s''
                else if u < 1000 then fmtInt u @ ''ns''
                else if u < 1000000 then
                  (let (frac, w) = fmtFrac u 3 in fmtInt w @ frac @ [CHR 0xC2, CHR 0xB5] @ ''s'')
                else
                  (let (frac, w) = fmtFrac u 6 in fmtInt w @ frac @ ''ms''))
             else
               (let (frac, secs) = fmtFrac u 9;
                    s = fmtInt (secs mod 60) @ frac @ ''s'';
                    mins = secs div 60
                in if 0 < mins then
                     (let m = fmtInt (mins mod 60) @ ''m'';
                          hours = mins div 60
                      in if 0 < hours then fmtInt hours @ ''h'' @ m @ s else m @ s)
                   else s))
      in if neg then ''-'' @ body else body)"

section \<open>Data model\<close>

text \<open>The three structs of \<^verbatim>\<open>src/main.go\<close>, lines 18 to 38.\<close>

record Transaction =
  ID :: string
  Amount :: float64
  Timestamp :: Time
  AccountID :: string
  Merchant :: string

record FraudResult =
  Transaction :: Transaction
  Reason :: string

record Config =
  HighAmountThreshold :: float64
  TimeWindow :: Duration
  OutputFile :: string

section \<open>processBatch\<close>

text \<open>
  The inner loop of \<open>processBatch\<close> (lines 200 to 217): \<open>j\<close> runs from its start value
  to the end of the batch, \<open>tx\<close> is the transaction of the outer loop, and
  \<open>batchResults\<close> is the slice that the loop appends to.
\<close>

function processBatch_inner ::
  "Transaction list \<Rightarrow> Config \<Rightarrow> Transaction \<Rightarrow> nat \<Rightarrow> FraudResult list \<Rightarrow> FraudResult list"
where
  "processBatch_inner batch config tx j batchResults =
     (if j < length batch then
        (let nextTx = batch ! j
         in if AccountID nextTx \<noteq> AccountID tx then
              processBatch_inner batch config tx (j + 1) batchResults
            else
              (let timeDiff = Sub (Timestamp nextTx) (Timestamp tx)
               in if timeDiff <s TimeWindow config \<and> 0 <s timeDiff then
                    processBatch_inner batch config tx (j + 1)
                      (batchResults
                       @ [\<lparr>Transaction = tx,
                           Reason = ''Rapid transaction: '' @ Duration_String timeDiff
                                    @ '' later with $'' @ fmt_2f (Amount nextTx)\<rparr>]
                       @ [\<lparr>Transaction = nextTx,
                           Reason = ''Rapid transaction: following $'' @ fmt_2f (Amount tx)
                                    @ '' after '' @ Duration_String timeDiff\<rparr>])
                  else processBatch_inner batch config tx (j + 1) batchResults))
      else batchResults)"
  by pat_completeness auto
termination
  by (relation "measure (\<lambda>(batch, config, tx, j, batchResults). length batch - j)") auto

declare processBatch_inner.simps [simp del]

text \<open>The outer loop (lines 190 to 218), \<open>i\<close> running over the positions of the batch.\<close>

function processBatch_outer ::
  "Transaction list \<Rightarrow> Config \<Rightarrow> nat \<Rightarrow> FraudResult list \<Rightarrow> FraudResult list"
where
  "processBatch_outer batch config i batchResults =
     (if i < length batch then
        (let tx = batch ! i;
             batchResults1 =
               (if f64_gt (Amount tx) (HighAmountThreshold config) then
                  batchResults
                  @ [\<lparr>Transaction = tx, Reason = ''High amount: $'' @ fmt_2f (Amount tx)\<rparr>]
                else batchResults);
             batchResults2 = processBatch_inner batch config tx (i + 1) batchResults1
         in processBatch_outer batch config (i + 1) batchResults2)
      else batchResults)"
  by pat_completeness auto
termination
  by (relation "measure (\<lambda>(batch, config, i, batchResults). length batch - i)") auto

declare processBatch_outer.simps [simp del]

definition processBatch :: "Transaction list \<Rightarrow> Config \<Rightarrow> FraudResult list" where
  "processBatch batch config = processBatch_outer batch config 0 []"

section \<open>detectFraud\<close>

text \<open>
  Run-time panics of Go that the statements of \<open>detectFraud\<close> could raise: an integer
  division by zero and a slice expression out of range.
\<close>

datatype panic = DivideByZero | SliceBounds

text \<open>
  A slice is a view of the caller's array: the pair of its first offset and the offset
  after its last element. The slice expression \<^verbatim>\<open>a[lo:hi]\<close> panics unless
  \<open>lo \<le> hi\<close> and \<open>hi\<close> is within the array. Go compares \<open>hi\<close> with the
  capacity of \<open>a\<close>, which is at least its length; the model compares it with the
  length, so it panics wherever Go does. \<open>elems\<close> reads the elements a view shows.
\<close>

type_synonym slice = "nat \<times> nat"

definition slice_expr :: "'a list \<Rightarrow> nat \<Rightarrow> nat \<Rightarrow> panic + slice" where
  "slice_expr a lo hi = (if lo \<le> hi \<and> hi \<le> length a then Inr (lo, hi) else Inl SliceBounds)"

definition elems :: "'a list \<Rightarrow> slice \<Rightarrow> 'a list" where
  "elems a s = take (snd s - fst s) (drop (fst s) a)"

text \<open>
  The memory that the goroutines share: the caller's array of transactions, which the
  batches are views of, and the variable \<open>results\<close> guarded by the mutex.
\<close>

record Shared =
  transactions :: "Transaction list"
  results :: "FraudResult list"

text \<open>Lines 158 to 161: the number of batches.\<close>

definition batch_count :: "nat \<Rightarrow> nat \<Rightarrow> panic + nat" where
  "batch_count n batchSize =
     (if batchSize = 0 then Inl DivideByZero
      else (let batches = n div batchSize
            in if n mod batchSize \<noteq> 0 then Inr (batches + 1) else Inr batches))"

text \<open>
  The loop of lines 163 to 179, as far as it runs in the calling goroutine: for each
  \<open>i\<close> it evaluates the slice expression and starts a goroutine on that batch. The
  goroutines started so far are collected in \<open>started\<close>.
\<close>

function spawn_loop ::
  "Transaction list \<Rightarrow> nat \<Rightarrow> nat \<Rightarrow> nat \<Rightarrow> slice list \<Rightarrow> panic + slice list"
where
  "spawn_loop txs batchSize batches i started =
     (if i < batches then
        (let start = i * batchSize;
             end0 = start + batchSize;
             end1 = (if length txs < end0 then length txs else end0)
         in case slice_expr txs start end1 of
              Inl p \<Rightarrow> Inl p
            | Inr batch \<Rightarrow> spawn_loop txs batchSize batches (i + 1) (started @ [batch]))
      else Inr started)"
  by pat_completeness auto
termination
  by (relation "measure (\<lambda>(txs, batchSize, batches, i, started). batches - i)") auto

declare spawn_loop.simps [simp del]

text \<open>
  The batches that \<open>detectFraud\<close> cuts the input into: the count of lines 158 to 161,
  then the slices of the loop.
\<close>

definition partition_batches :: "Transaction list \<Rightarrow> nat \<Rightarrow> panic + slice list" where
  "partition_batches txs bsz =
     (case batch_count (length txs) bsz of
        Inl p \<Rightarrow> Inl p
      | Inr batches \<Rightarrow> spawn_loop txs bsz batches 0 [])"

text \<open>
  The body of one goroutine (lines 171 to 178): it evaluates its batch, read through
  the view, and appends the batch's results to \<open>results\<close> while it holds the mutex.
\<close>

definition goroutine :: "Config \<Rightarrow> slice \<Rightarrow> Shared \<Rightarrow> Shared" where
  "goroutine config batch st =
     (let batchResults = processBatch (elems (transactions st) batch) config
      in st\<lparr>results := results st @ batchResults\<rparr>)"

text \<open>
  The goroutines run concurrently, and the mutex serialises their appends. A schedule
  is the order in which they take the mutex, each goroutine named by the index of its
  batch; \<^verbatim>\<open>wg.Wait\<close> returns when every goroutine has finished, so the schedule of a
  run names every batch once. An entry of a schedule that names no goroutine runs
  nothing.
\<close>

definition schedule_ok :: "nat \<Rightarrow> nat list \<Rightarrow> bool" where
  "schedule_ok batches sched = (mset sched = mset [0..<batches])"

text \<open>
  \<open>detectFraud\<close> with the batch size and the schedule as arguments. It returns the
  shared memory as \<^verbatim>\<open>wg.Wait\<close> leaves it.
\<close>

definition run_goroutines :: "Config \<Rightarrow> slice list \<Rightarrow> nat list \<Rightarrow> Shared \<Rightarrow> Shared" where
  "run_goroutines config started sched st =
     fold (\<lambda>k st. if k < length started then goroutine config (started ! k) st else st)
       sched st"

definition detectFraud_run ::
  "nat \<Rightarrow> nat list \<Rightarrow> Transaction list \<Rightarrow> Config \<Rightarrow> panic + Shared"
where
  "detectFraud_run bsz sched txs config =
     (case partition_batches txs bsz of
        Inl p \<Rightarrow> Inl p
      | Inr started \<Rightarrow>
          Inr (run_goroutines config started sched \<lparr>transactions = txs, results = []\<rparr>))"

text \<open>Line 157: the batch size of the source, and \<open>detectFraud\<close> itself.\<close>

definition batchSize :: nat where
  "batchSize = 100"

definition detectFraud :: "nat list \<Rightarrow> Transaction list \<Rightarrow> Config \<Rightarrow> panic + FraudResult list" where
  "detectFraud sched txs config = map_sum id results (detectFraud_run batchSize sched txs config)"

section \<open>The rules as the specification words them\<close>

text \<open>
  Rule A: a transaction whose amount is greater than the threshold gives one result.
\<close>

definition high_result :: "Transaction \<Rightarrow> FraudResult" where
  "high_result tx = \<lparr>Transaction = tx, Reason = ''High amount: $'' @ fmt_2f (Amount tx)\<rparr>"

definition spec_high :: "Config \<Rightarrow> Transaction \<Rightarrow> FraudResult list" where
  "spec_high config tx =
     (if f64_gt (Amount tx) (HighAmountThreshold config) then [high_result tx] else [])"

text \<open>
  Rule B: the elapsed time of a pair is the difference of the two instants, as an
  integer; the pair qualifies when both transactions have the same account and the
  elapsed time is strictly between zero and the window. A qualifying pair gives two
  results, the earlier transaction's first.
\<close>

definition elapsed :: "Transaction \<Rightarrow> Transaction \<Rightarrow> int" where
  "elapsed tx nextTx = instant (Timestamp nextTx) - instant (Timestamp tx)"

definition rapid_pair :: "Config \<Rightarrow> Transaction \<Rightarrow> Transaction \<Rightarrow> bool" where
  "rapid_pair config tx nextTx =
     (AccountID nextTx = AccountID tx \<and> 0 < elapsed tx nextTx
      \<and> elapsed tx nextTx < sint (TimeWindow config))"

definition earlier_result :: "Transaction \<Rightarrow> Transaction \<Rightarrow> FraudResult" where
  "earlier_result tx nextTx =
     \<lparr>Transaction = tx,
      Reason = ''Rapid transaction: '' @ Duration_String (word_of_int (elapsed tx nextTx))
               @ '' later with $'' @ fmt_2f (Amount nextTx)\<rparr>"

definition later_result :: "Transaction \<Rightarrow> Transaction \<Rightarrow> FraudResult" where
  "later_result tx nextTx =
     \<lparr>Transaction = nextTx,
      Reason = ''Rapid transaction: following $'' @ fmt_2f (Amount tx)
               @ '' after '' @ Duration_String (word_of_int (elapsed tx nextTx))\<rparr>"

definition spec_pair :: "Config \<Rightarrow> Transaction \<Rightarrow> Transaction \<Rightarrow> FraudResult list" where
  "spec_pair config tx nextTx =
     (if rapid_pair config tx nextTx then [earlier_result tx nextTx, later_result tx nextTx]
      else [])"

text \<open>What position \<open>i\<close> of a batch contributes, and what the whole batch gives.\<close>

definition spec_position :: "Config \<Rightarrow> Transaction list \<Rightarrow> nat \<Rightarrow> FraudResult list" where
  "spec_position config batch i =
     spec_high config (batch ! i)
     @ concat (map (\<lambda>j. spec_pair config (batch ! i) (batch ! j)) [Suc i..<length batch])"

definition spec_batch :: "Config \<Rightarrow> Transaction list \<Rightarrow> FraudResult list" where
  "spec_batch config batch = concat (map (spec_position config batch) [0..<length batch])"

text \<open>The rule that a result comes from is read off the head of its reason.\<close>

definition is_high :: "FraudResult \<Rightarrow> bool" where
  "is_high r = (take 14 (Reason r) = ''High amount: $'')"

definition is_rapid :: "FraudResult \<Rightarrow> bool" where
  "is_rapid r = (take 19 (Reason r) = ''Rapid transaction: '')"

text \<open>The pairs of positions \<open>i < j\<close> below \<open>n\<close>, in the order of the two loops.\<close>

definition pairs :: "nat \<Rightarrow> (nat \<times> nat) list" where
  "pairs n = concat (map (\<lambda>i. map (\<lambda>j. (i, j)) [Suc i..<n]) [0..<n])"

text \<open>
  The partition as the specification words it: batch \<open>k\<close> is the slice that starts at
  offset \<open>k * bsz\<close> and holds \<open>bsz\<close> transactions, or those that are left.
\<close>

definition slice_at :: "nat \<Rightarrow> nat \<Rightarrow> nat \<Rightarrow> slice" where
  "slice_at n bsz k = (k * bsz, min (k * bsz + bsz) n)"

definition batch_at :: "'a list \<Rightarrow> nat \<Rightarrow> nat \<Rightarrow> 'a list" where
  "batch_at txs bsz k = take bsz (drop (k * bsz) txs)"

definition num_batches :: "nat \<Rightarrow> nat \<Rightarrow> nat" where
  "num_batches n bsz = (if n mod bsz \<noteq> 0 then n div bsz + 1 else n div bsz)"

text \<open>A pair of positions of a batch, as positions of the whole input.\<close>

definition shift :: "nat \<Rightarrow> nat \<times> nat \<Rightarrow> nat \<times> nat" where
  "shift s ij = (s + fst ij, s + snd ij)"

section \<open>Scenarios\<close>

text \<open>
  The inputs of the specification's scenarios. Scenario A: two transactions of one
  account, two minutes apart, with amounts of 50 and 60 dollars. Scenario B: one
  transaction of 1500 dollars. The configuration is the default of the command line: a
  threshold of 1000 dollars and a window of five minutes.
\<close>

definition scenarioA_first :: Transaction where
  "scenarioA_first =
     \<lparr>ID = ''1'', Amount = Finite 50, Timestamp = \<lparr>instant = 0, zone = 0\<rparr>,
      AccountID = ''ACC123'', Merchant = ''Store A''\<rparr>"

definition scenarioA_second :: Transaction where
  "scenarioA_second =
     \<lparr>ID = ''2'', Amount = Finite 60, Timestamp = \<lparr>instant = 120000000000, zone = 0\<rparr>,
      AccountID = ''ACC123'', Merchant = ''Store B''\<rparr>"

definition scenario_config :: Config where
  "scenario_config =
     \<lparr>HighAmountThreshold = Finite 1000, TimeWindow = 300000000000, OutputFile = []\<rparr>"

definition scenarioB_tx :: Transaction where
  "scenarioB_tx =
     \<lparr>ID = ''1'', Amount = Finite 1500, Timestamp = \<lparr>instant = 0, zone = 0\<rparr>,
      AccountID = ''ACC123'', Merchant = ''Store A''\<rparr>"

text \<open>
  Scenario C: 150 transactions. Those at positions 99 and 100 are of one account and
  two minutes apart; all others are of another account and share one timestamp.
  A window of zero and a negative window stand for a configuration that is not
  positive.
\<close>

definition scenarioC_tx :: "nat \<Rightarrow> Transaction" where
  "scenarioC_tx k =
     \<lparr>ID = digits k, Amount = Finite 50,
      Timestamp = \<lparr>instant = (if k = 100 then 120000000000 else 0), zone = 0\<rparr>,
      AccountID = (if k = 99 \<or> k = 100 then ''ACC123'' else ''ACC456''),
      Merchant = ''Store A''\<rparr>"

definition scenarioC_txs :: "Transaction list" where
  "scenarioC_txs = map scenarioC_tx [0..<150]"

definition zero_window_config :: Config where
  "zero_window_config =
     \<lparr>HighAmountThreshold = Finite 1000, TimeWindow = 0, OutputFile = []\<rparr>"

definition negative_window_config :: Config where
  "negative_window_config =
     \<lparr>HighAmountThreshold = Finite 1000, TimeWindow = - 300000000000, OutputFile = []\<rparr>"

section \<open>The window test on saturating durations\<close>

lemma sint_minDuration: "sint minDuration = - (2 ^ 63)"
  by (simp add: minDuration_def)

lemma sint_maxDuration: "sint maxDuration = 2 ^ 63 - 1"
  by (simp add: maxDuration_def)

lemma sint_Duration_range: "- (2 ^ 63) \<le> sint (w :: Duration) \<and> sint w \<le> 2 ^ 63 - 1"
  using sint_range_size [of w] by (simp add: word_size)

lemma sint_word_of_int_fits:
  assumes "- (2 ^ 63) \<le> d" "d \<le> 2 ^ 63 - 1"
  shows "sint (word_of_int d :: Duration) = d"
proof -
  have "sint (word_of_int d :: Duration) = signed_take_bit 63 d"
    by (simp add: signed_of_int)
  also have "\<dots> = d"
    using assms by (intro signed_take_bit_int_eq_self) simp_all
  finally show ?thesis .
qed

lemma Sub_window_iff:
  "(Sub tj ti <s w \<and> 0 <s Sub tj ti) \<longleftrightarrow>
   (0 < instant tj - instant ti \<and> instant tj - instant ti < sint w)"
proof -
  define d where "d = instant tj - instant ti"
  have sub: "Sub tj ti = (if d < - (2 ^ 63) then minDuration
        else if 2 ^ 63 - 1 < d then maxDuration else word_of_int d)"
    by (simp add: Sub_def Let_def d_def)
  have range: "- (2 ^ 63) \<le> sint w" "sint w \<le> 2 ^ 63 - 1"
    using sint_Duration_range [of w] by simp_all
  have "(Sub tj ti <s w \<and> 0 <s Sub tj ti) \<longleftrightarrow> (0 < d \<and> d < sint w)"
  proof -
  consider (low) "d < - (2 ^ 63)" | (high) "2 ^ 63 - 1 < d"
    | (fits) "- (2 ^ 63) \<le> d" "d \<le> 2 ^ 63 - 1"
    by linarith
  then show ?thesis
  proof cases
    case low
    then have "Sub tj ti = minDuration" by (simp add: sub)
    with low show ?thesis
      by (simp add: word_sless_alt sint_minDuration)
  next
    case high
    then have s: "Sub tj ti = maxDuration" by (simp add: sub)
    from high s range show ?thesis
      by (simp add: word_sless_alt sint_maxDuration)
  next
    case fits
    then have "Sub tj ti = word_of_int d" by (simp add: sub)
    with fits show ?thesis
      by (auto simp add: word_sless_alt sint_word_of_int_fits)
  qed
  qed
  then show ?thesis by (simp only: d_def)
qed

lemma Sub_fits:
  "0 < instant tj - instant ti \<Longrightarrow> instant tj - instant ti < sint (w :: Duration) \<Longrightarrow>
   Sub tj ti = word_of_int (instant tj - instant ti)"
  using sint_Duration_range [of w] by (simp add: Sub_def Let_def del: of_int_diff)

lemma inner_spec:
  "processBatch_inner batch config tx j acc =
   acc @ concat (map (\<lambda>k. spec_pair config tx (batch ! k)) [j..<length batch])"
proof (induction batch config tx j acc rule: processBatch_inner.induct)
  case (1 batch config tx j acc)
  show ?case
  proof (cases "j < length batch")
    case False
    then show ?thesis by (simp add: processBatch_inner.simps)
  next
    case True
    then have upt: "[j..<length batch] = j # [j + 1..<length batch]"
      by (simp add: upt_conv_Cons)
    let ?next = "batch ! j"
    show ?thesis
    proof (cases "AccountID ?next \<noteq> AccountID tx")
      case diff: True
      then have "spec_pair config tx ?next = []"
        by (auto simp: spec_pair_def rapid_pair_def)
      moreover have "processBatch_inner batch config tx j acc =
          processBatch_inner batch config tx (j + 1) acc"
        using True diff by (subst processBatch_inner.simps) (simp add: Let_def)
      ultimately show ?thesis
        using "1.IH"(1) [OF True refl diff] upt by simp
    next
      case same: False
      let ?d = "Sub (Timestamp ?next) (Timestamp tx)"
      show ?thesis
      proof (cases "?d <s TimeWindow config \<and> 0 <s ?d")
        case fire: True
        then have q: "rapid_pair config tx ?next"
          using same by (simp add: rapid_pair_def elapsed_def Sub_window_iff)
        then have d: "?d = word_of_int (elapsed tx ?next)"
          unfolding rapid_pair_def elapsed_def
          by (intro Sub_fits [where w = "TimeWindow config"]) simp_all
        have "spec_pair config tx ?next = [earlier_result tx ?next, later_result tx ?next]"
          using q by (simp add: spec_pair_def)
        moreover have "processBatch_inner batch config tx j acc =
          processBatch_inner batch config tx (j + 1)
            (acc @ [earlier_result tx ?next] @ [later_result tx ?next])"
          using True same fire
          by (subst processBatch_inner.simps)
             (simp add: Let_def earlier_result_def later_result_def d [symmetric])
        moreover have "processBatch_inner batch config tx (j + 1)
            (acc @ [earlier_result tx ?next] @ [later_result tx ?next]) =
          (acc @ [earlier_result tx ?next] @ [later_result tx ?next])
          @ concat (map (\<lambda>k. spec_pair config tx (batch ! k)) [j + 1..<length batch])"
          using "1.IH"(2) [OF True refl _ refl fire] same
          by (simp add: earlier_result_def later_result_def d)
        ultimately show ?thesis
          using upt by simp
      next
        case quiet: False
        then have "\<not> rapid_pair config tx ?next"
          by (simp add: rapid_pair_def elapsed_def Sub_window_iff)
        then have "spec_pair config tx ?next = []"
          by (simp add: spec_pair_def)
        moreover have "processBatch_inner batch config tx j acc =
          processBatch_inner batch config tx (j + 1) acc"
          using True same quiet by (subst processBatch_inner.simps) (auto simp add: Let_def)
        ultimately show ?thesis
          using "1.IH"(3) [OF True refl _ refl quiet] same upt by simp
      qed
    qed
  qed
qed

lemma outer_spec:
  "processBatch_outer batch config i acc =
   acc @ concat (map (spec_position config batch) [i..<length batch])"
proof (induction batch config i acc rule: processBatch_outer.induct)
  case (1 batch config i acc)
  show ?case
  proof (cases "i < length batch")
    case False
    then show ?thesis by (simp add: processBatch_outer.simps)
  next
    case True
    then have upt: "[i..<length batch] = i # [i + 1..<length batch]"
      by (simp add: upt_conv_Cons)
    let ?tx = "batch ! i"
    let ?acc1 = "acc @ spec_high config ?tx"
    let ?acc2 = "processBatch_inner batch config ?tx (i + 1) ?acc1"
    have acc1: "(if f64_gt (Amount ?tx) (HighAmountThreshold config) then
                  acc @ [\<lparr>Transaction = ?tx, Reason = ''High amount: $'' @ fmt_2f (Amount ?tx)\<rparr>]
                else acc) = ?acc1"
      by (simp add: spec_high_def high_result_def)
    have step: "processBatch_outer batch config i acc =
                processBatch_outer batch config (i + 1) ?acc2"
      using True by (subst processBatch_outer.simps) (simp only: Let_def acc1 if_True)
    have "processBatch_outer batch config (i + 1) ?acc2 =
          ?acc2 @ concat (map (spec_position config batch) [i + 1..<length batch])"
      using "1.IH" [OF True refl refl refl] by (simp only: acc1)
    moreover have "?acc2 = acc @ spec_position config batch i"
      by (simp add: inner_spec spec_position_def)
    ultimately show ?thesis
      using step upt by simp
  qed
qed

lemma processBatch_spec: "processBatch batch config = spec_batch config batch"
  by (simp add: processBatch_def outer_spec spec_batch_def)

section \<open>The results of a batch, rule by rule\<close>

lemma is_rapid_results [simp]:
  "is_rapid (earlier_result tx nextTx)" "is_rapid (later_result tx nextTx)"
  "\<not> is_rapid (high_result tx)"
  by (simp_all add: is_rapid_def earlier_result_def later_result_def high_result_def)

lemma is_high_results [simp]:
  "\<not> is_high (earlier_result tx nextTx)" "\<not> is_high (later_result tx nextTx)"
  "is_high (high_result tx)"
  by (simp_all add: is_high_def earlier_result_def later_result_def high_result_def)

lemma filter_rapid_pair [simp]: "filter is_rapid (spec_pair config tx nextTx) = spec_pair config tx nextTx"
  by (simp add: spec_pair_def)

lemma filter_high_pair [simp]: "filter is_high (spec_pair config tx nextTx) = []"
  by (simp add: spec_pair_def)

lemma filter_rapid_high [simp]: "filter is_rapid (spec_high config tx) = []"
  by (simp add: spec_high_def)

lemma filter_high_high [simp]: "filter is_high (spec_high config tx) = spec_high config tx"
  by (simp add: spec_high_def)

lemma filter_concat_map_id:
  "(\<And>x. filter P (f x) = f x) \<Longrightarrow> filter P (concat (map f xs)) = concat (map f xs)"
  by (induction xs) simp_all

lemma filter_concat_map_none:
  "(\<And>x. filter P (f x) = []) \<Longrightarrow> filter P (concat (map f xs)) = []"
  by (induction xs) simp_all

lemma filter_rapid_position:
  "filter is_rapid (spec_position config batch i) =
   concat (map (\<lambda>j. spec_pair config (batch ! i) (batch ! j)) [Suc i..<length batch])"
  by (simp add: spec_position_def filter_concat_map_id)

lemma filter_high_position:
  "filter is_high (spec_position config batch i) = spec_high config (batch ! i)"
  by (simp add: spec_position_def filter_concat_map_none)

lemma filter_concat_map:
  "filter P (concat (map f xs)) = concat (map (\<lambda>x. filter P (f x)) xs)"
  by (induction xs) simp_all

lemma concat_map_pairs:
  "concat (map (\<lambda>(i, j). g i j) (concat (map (\<lambda>i. map (\<lambda>j. (i, j)) (h i)) xs))) =
   concat (map (\<lambda>i. concat (map (\<lambda>j. g i j) (h i))) xs)"
  by (induction xs) (simp_all add: comp_def)

lemma filter_rapid_batch:
  "filter is_rapid (spec_batch config batch) =
   concat (map (\<lambda>(i, j). spec_pair config (batch ! i) (batch ! j)) (pairs (length batch)))"
  by (simp add: spec_batch_def filter_concat_map filter_rapid_position pairs_def concat_map_pairs)

lemma concat_map_nth:
  "concat (map (\<lambda>i. f (xs ! i)) [0..<length xs]) = concat (map f xs)"
proof -
  have "map (\<lambda>i. f (xs ! i)) [0..<length xs] = map f (map ((!) xs) [0..<length xs])"
    by simp
  then show ?thesis by (simp only: map_nth)
qed

lemma concat_spec_high:
  "concat (map (spec_high config) batch) =
   map high_result (filter (\<lambda>tx. f64_gt (Amount tx) (HighAmountThreshold config)) batch)"
  by (induction batch) (simp_all add: spec_high_def)

lemma filter_high_batch:
  "filter is_high (spec_batch config batch) =
   map high_result (filter (\<lambda>tx. f64_gt (Amount tx) (HighAmountThreshold config)) batch)"
  by (simp add: spec_batch_def filter_concat_map filter_high_position concat_map_nth concat_spec_high)

lemma f64_gt_irrefl: "\<not> f64_gt x x"
  by (cases x) simp_all

section \<open>The partition and the run\<close>

lemma batch_count_num: "0 < bsz \<Longrightarrow> batch_count n bsz = Inr (num_batches n bsz)"
  by (simp add: batch_count_def num_batches_def Let_def)

lemma num_batches_ceil:
  assumes "0 < bsz"
  shows "num_batches n bsz = (n + bsz - 1) div bsz"
proof -
  define m where "m = bsz * (n div bsz)"
  define r where "r = n mod bsz"
  have split: "m + r = n" by (simp add: m_def r_def)
  have rem: "r < bsz" using assms by (simp add: r_def)
  show ?thesis
  proof (cases "r = 0")
    case True
    have "m \<le> n + bsz - 1" "n + bsz - 1 < m + bsz"
      using split True assms by linarith+
    then have "(n + bsz - 1) div bsz = n div bsz"
      by (intro div_nat_eqI) (simp_all add: m_def)
    with True show ?thesis by (simp add: num_batches_def r_def)
  next
    case False
    have "m + bsz \<le> n + bsz - 1" "n + bsz - 1 < m + bsz + bsz"
      using split False rem by linarith+
    then have "(n + bsz - 1) div bsz = n div bsz + 1"
      by (intro div_nat_eqI) (simp_all add: m_def algebra_simps)
    with False show ?thesis by (simp add: num_batches_def r_def)
  qed
qed

lemma num_batches_start:
  assumes "0 < bsz" "k < num_batches n bsz"
  shows "k * bsz < n"
proof -
  have split: "n div bsz * bsz + n mod bsz = n" by simp
  show ?thesis
  proof (cases "n mod bsz = 0")
    case True
    with assms have "Suc k \<le> n div bsz" by (simp add: num_batches_def)
    then have "Suc k * bsz \<le> n div bsz * bsz" by (rule mult_le_mono1)
    with split True assms show ?thesis by simp
  next
    case False
    with assms have "k \<le> n div bsz" by (simp add: num_batches_def)
    then have "k * bsz \<le> n div bsz * bsz" by (rule mult_le_mono1)
    with split False show ?thesis by linarith
  qed
qed

lemma num_batches_cover:
  assumes "0 < bsz"
  shows "n \<le> num_batches n bsz * bsz"
proof -
  define m where "m = n div bsz * bsz"
  define r where "r = n mod bsz"
  have split: "m + r = n" by (simp add: m_def r_def)
  have rem: "r < bsz" using assms by (simp add: r_def)
  show ?thesis
  proof (cases "r = 0")
    case True
    with split have "n \<le> m" by linarith
    with True show ?thesis by (simp add: num_batches_def r_def m_def)
  next
    case False
    from split rem have "n \<le> m + bsz" by linarith
    with False show ?thesis by (simp add: num_batches_def r_def m_def)
  qed
qed

lemma num_batches_index:
  assumes "0 < bsz" "p < n"
  shows "p div bsz < num_batches n bsz"
proof (rule ccontr)
  assume "\<not> p div bsz < num_batches n bsz"
  then have "num_batches n bsz \<le> p div bsz" by simp
  then have "num_batches n bsz * bsz \<le> p div bsz * bsz" by (rule mult_le_mono1)
  also have "\<dots> \<le> p" by simp
  finally show False using num_batches_cover [OF assms(1), of n] assms(2) by simp
qed

lemma spawn_loop_slices:
  assumes "\<And>k. k < batches \<Longrightarrow> k * bsz \<le> length txs"
  shows "spawn_loop txs bsz batches i started =
         Inr (started @ map (slice_at (length txs) bsz) [i..<batches])"
  using assms
proof (induction txs bsz batches i started rule: spawn_loop.induct)
  case (1 txs bsz batches i started)
  show ?case
  proof (cases "i < batches")
    case False
    then show ?thesis by (simp add: spawn_loop.simps)
  next
    case True
    let ?end = "if length txs < i * bsz + bsz then length txs else i * bsz + bsz"
    have start: "i * bsz \<le> length txs" using "1.prems" True by simp
    then have slice: "slice_expr txs (i * bsz) ?end = Inr (slice_at (length txs) bsz i)"
      by (simp add: slice_expr_def slice_at_def min_def)
    have "spawn_loop txs bsz batches i started =
          spawn_loop txs bsz batches (i + 1) (started @ [slice_at (length txs) bsz i])"
      using True slice by (subst spawn_loop.simps) (simp add: Let_def)
    also have "\<dots> = Inr ((started @ [slice_at (length txs) bsz i])
                        @ map (slice_at (length txs) bsz) [i + 1..<batches])"
      using "1.IH" [OF True refl refl refl slice] "1.prems" by simp
    finally show ?thesis
      using True by (simp add: upt_conv_Cons)
  qed
qed

lemma partition_slices:
  assumes "0 < bsz"
  shows "partition_batches txs bsz =
         Inr (map (slice_at (length txs) bsz) [0..<num_batches (length txs) bsz])"
proof -
  have "k * bsz \<le> length txs" if "k < num_batches (length txs) bsz" for k
    using num_batches_start [OF assms that] by simp
  then show ?thesis
    using assms by (simp add: partition_batches_def batch_count_num spawn_loop_slices)
qed

lemma elems_slice_at:
  "k * bsz \<le> n \<Longrightarrow> n = length txs \<Longrightarrow> elems txs (slice_at n bsz k) = batch_at txs bsz k"
  by (simp add: elems_def slice_at_def batch_at_def min_def)

lemma goroutines_fold:
  assumes "set sched \<subseteq> {0..<length started}"
  shows "run_goroutines config started sched st =
   st\<lparr>results := results st
        @ concat (map (\<lambda>k. processBatch (elems (transactions st) (started ! k)) config) sched)\<rparr>"
  using assms
proof (induction sched arbitrary: st)
  case Nil
  show ?case by (simp add: run_goroutines_def)
next
  case (Cons k sched)
  then have k: "k < length started" and rest: "set sched \<subseteq> {0..<length started}"
    by simp_all
  have "run_goroutines config started (k # sched) st =
        run_goroutines config started sched (goroutine config (started ! k) st)"
    using k by (simp add: run_goroutines_def)
  then show ?case
    by (simp add: Cons.IH [OF rest]) (simp add: goroutine_def Let_def)
qed

lemma detectFraud_run_batches:
  assumes "0 < bsz" and "set sched \<subseteq> {0..<num_batches (length txs) bsz}"
  shows "detectFraud_run bsz sched txs config =
         Inr \<lparr>transactions = txs,
              results = concat (map (\<lambda>k. processBatch (batch_at txs bsz k) config) sched)\<rparr>"
proof -
  let ?nb = "num_batches (length txs) bsz"
  let ?started = "map (slice_at (length txs) bsz) [0..<?nb]"
  have start: "k * bsz \<le> length txs" if "k < ?nb" for k
    using num_batches_start [OF assms(1) that] by simp
  have loop: "partition_batches txs bsz = Inr ?started"
    using assms(1) by (rule partition_slices)
  have "elems txs (?started ! k) = batch_at txs bsz k" if "k \<in> set sched" for k
  proof -
    from that assms(2) have k: "k < ?nb" by auto
    then show ?thesis using start [OF k] by (simp add: elems_slice_at)
  qed
  then have same: "map (\<lambda>k. processBatch (elems txs (?started ! k)) config) sched =
             map (\<lambda>k. processBatch (batch_at txs bsz k) config) sched"
    by simp
  have "detectFraud_run bsz sched txs config =
        Inr \<lparr>transactions = txs,
             results = concat (map (\<lambda>k. processBatch (elems txs (?started ! k)) config) sched)\<rparr>"
    using assms(2) by (simp add: detectFraud_run_def loop goroutines_fold)
  then show ?thesis
    by (simp only: same)
qed

lemma schedule_ok_set: "schedule_ok batches sched \<Longrightarrow> set sched = {0..<batches}"
  unfolding schedule_ok_def by (metis mset_eq_setD set_upt)

lemma concat_batches: "concat (map (batch_at txs bsz) [0..<m]) = take (m * bsz) txs"
proof (induction m)
  case 0
  show ?case by simp
next
  case (Suc m)
  have "take (m * bsz + bsz) txs = take (m * bsz) txs @ take bsz (drop (m * bsz) txs)"
    by (simp add: take_add)
  with Suc show ?case by (simp add: batch_at_def add.commute)
qed

lemma concat_all_batches:
  "0 < bsz \<Longrightarrow> concat (map (batch_at txs bsz) [0..<num_batches (length txs) bsz]) = txs"
  using num_batches_cover [of bsz "length txs"] by (simp add: concat_batches)

section \<open>Pairs of positions and their batches\<close>

lemma set_pairs: "set (pairs n) = {(i, j). i < j \<and> j < n}"
proof -
  have "set (pairs n) = (\<Union>i\<in>{0..<n}. (\<lambda>j. (i, j)) ` {Suc i..<n})"
    by (simp add: pairs_def)
  also have "\<dots> = {(i, j). i < j \<and> j < n}"
  proof (rule set_eqI)
    fix x :: "nat \<times> nat"
    obtain a b where x: "x = (a, b)" by (cases x)
    have "(a, b) \<in> (\<Union>i\<in>{0..<n}. (\<lambda>j. (i, j)) ` {Suc i..<n}) \<longleftrightarrow>
          (\<exists>i. i < n \<and> a = i \<and> Suc i \<le> b \<and> b < n)"
      by (simp add: image_iff)
    also have "\<dots> \<longleftrightarrow> a < b \<and> b < n"
      by auto
    finally show "x \<in> (\<Union>i\<in>{0..<n}. (\<lambda>j. (i, j)) ` {Suc i..<n}) \<longleftrightarrow>
                  x \<in> {(i, j). i < j \<and> j < n}"
      by (simp add: x)
  qed
  finally show ?thesis .
qed

lemma distinct_pairs: "distinct (pairs n)"
  unfolding pairs_def
proof (rule distinct_concat)
  have "inj_on (\<lambda>i. map (\<lambda>j. (i, j)) [Suc i..<n]) (set [0..<n])"
  proof (rule inj_onI)
    fix x y
    assume x: "x \<in> set [0..<n]" and y: "y \<in> set [0..<n]"
      and eq: "map (\<lambda>j. (x, j)) [Suc x..<n] = map (\<lambda>j. (y, j)) [Suc y..<n]"
    from eq have "length (map (\<lambda>j. (x, j)) [Suc x..<n]) = length (map (\<lambda>j. (y, j)) [Suc y..<n])"
      by (rule arg_cong)
    with x y show "x = y" by simp
  qed
  then show "distinct (map (\<lambda>i. map (\<lambda>j. (i, j)) [Suc i..<n]) [0..<n])"
    by (simp add: distinct_map)
next
  fix ys
  assume "ys \<in> set (map (\<lambda>i. map (\<lambda>j. (i, j)) [Suc i..<n]) [0..<n])"
  then obtain i where "ys = map (\<lambda>j. (i, j)) [Suc i..<n]" by auto
  then show "distinct ys" by (simp add: distinct_map inj_on_def)
next
  fix ys zs
  assume "ys \<in> set (map (\<lambda>i. map (\<lambda>j. (i, j)) [Suc i..<n]) [0..<n])"
    and "zs \<in> set (map (\<lambda>i. map (\<lambda>j. (i, j)) [Suc i..<n]) [0..<n])"
    and ne: "ys \<noteq> zs"
  then obtain i k where ys: "ys = map (\<lambda>j. (i, j)) [Suc i..<n]"
    and zs: "zs = map (\<lambda>j. (k, j)) [Suc k..<n]" by auto
  with ne have "i \<noteq> k" by auto
  then have "fst ` set ys \<inter> fst ` set zs = {}"
    unfolding ys zs by (auto simp: image_iff)
  then show "set ys \<inter> set zs = {}" by blast
qed

lemma mset_concat_map_cong:
  assumes "mset xs = mset ys"
  shows "mset (concat (map g xs)) = mset (concat (map g ys))"
proof -
  have "mset (concat (map g zs)) = \<Sum>\<^sub># (image_mset (\<lambda>z. mset (g z)) (mset zs))" for zs
    by (induction zs) simp_all
  with assms show ?thesis by simp
qed

lemma concat_map_concat_map:
  "concat (map h (concat (map F ks))) = concat (map (\<lambda>k. concat (map h (F k))) ks)"
  by (induction ks) simp_all

lemma batch_at_length: "length (batch_at txs bsz k) = min bsz (length txs - k * bsz)"
  by (simp add: batch_at_def)

lemma batch_at_nth:
  assumes "i < length (batch_at txs bsz k)"
  shows "batch_at txs bsz k ! i = txs ! (k * bsz + i)"
proof -
  from assms have "i < bsz" and "k * bsz \<le> length txs"
    unfolding batch_at_length by linarith+
  then show ?thesis by (simp add: batch_at_def)
qed

lemma rapid_batch_at:
  "filter is_rapid (processBatch (batch_at txs bsz k) config) =
   concat (map (\<lambda>(p, q). spec_pair config (txs ! p) (txs ! q))
            (map (shift (k * bsz)) (pairs (length (batch_at txs bsz k)))))"
proof -
  let ?b = "batch_at txs bsz k"
  have "map (\<lambda>(i, j). spec_pair config (?b ! i) (?b ! j)) (pairs (length ?b)) =
        map (\<lambda>(p, q). spec_pair config (txs ! p) (txs ! q))
          (map (shift (k * bsz)) (pairs (length ?b)))"
    unfolding map_map
    by (rule map_cong) (auto simp: set_pairs shift_def batch_at_nth)
  then show ?thesis
    by (simp only: processBatch_spec filter_rapid_batch)
qed

lemma same_batch_set:
  assumes "0 < bsz"
  shows "shift (k * bsz) ` set (pairs (length (batch_at txs bsz k))) =
         {(p, q). p < q \<and> q < length txs \<and> p div bsz = k \<and> q div bsz = k}"
    (is "?L = ?R")
proof (rule set_eqI)
  fix x :: "nat \<times> nat"
  obtain p q where x: "x = (p, q)" by (cases x)
  show "x \<in> ?L \<longleftrightarrow> x \<in> ?R"
  proof
    assume "x \<in> ?L"
    then obtain i j where ij: "i < j" "j < bsz" "j < length txs - k * bsz"
        "p = k * bsz + i" "q = k * bsz + j"
      by (auto simp: x set_pairs shift_def batch_at_length)
    have "bsz * k \<le> p" "p < bsz * Suc k" "bsz * k \<le> q" "q < bsz * Suc k"
      using ij by (simp_all add: mult.commute)
    then have "p div bsz = k" "q div bsz = k"
      by (simp_all only: div_nat_eqI)
    with ij show "x \<in> ?R" by (simp add: x)
  next
    assume "x \<in> ?R"
    then have pq: "p < q" "q < length txs" "p div bsz = k" "q div bsz = k"
      by (simp_all add: x)
    have "p div bsz * bsz + p mod bsz = p" "q div bsz * bsz + q mod bsz = q"
      by (rule div_mult_mod_eq)+
    then have p: "p = k * bsz + p mod bsz" and q: "q = k * bsz + q mod bsz"
      by (simp_all only: pq(3,4))
    have "p mod bsz < q mod bsz" using p q pq(1) by linarith
    moreover have "q mod bsz < bsz" using assms by simp
    moreover have "q mod bsz < length txs - k * bsz" using q pq(2) by linarith
    ultimately have "(p mod bsz, q mod bsz) \<in> set (pairs (length (batch_at txs bsz k)))"
      by (simp add: set_pairs batch_at_length)
    then have "shift (k * bsz) (p mod bsz, q mod bsz) \<in> ?L" by (rule imageI)
    then show "x \<in> ?L" using p q by (simp add: x shift_def)
  qed
qed

lemma same_batch_mset:
  assumes "0 < bsz"
  shows "mset (map (shift (k * bsz)) (pairs (length (batch_at txs bsz k)))) =
         mset (filter (\<lambda>(p, q). p div bsz = k \<and> q div bsz = k) (pairs (length txs)))"
proof -
  have "distinct (map (shift (k * bsz)) (pairs (length (batch_at txs bsz k))))"
    by (auto simp: distinct_map distinct_pairs inj_on_def shift_def)
  moreover have "distinct (filter (\<lambda>(p, q). p div bsz = k \<and> q div bsz = k) (pairs (length txs)))"
    by (simp add: distinct_pairs)
  moreover have "set (map (shift (k * bsz)) (pairs (length (batch_at txs bsz k)))) =
                 set (filter (\<lambda>(p, q). p div bsz = k \<and> q div bsz = k) (pairs (length txs)))"
    using same_batch_set [OF assms, of k txs] by (auto simp: set_pairs)
  ultimately show ?thesis
    by (simp only: set_eq_iff_mset_eq_distinct)
qed

lemma split_by_batch:
  "(\<Sum>k\<leftarrow>[0..<m]. filter_mset (\<lambda>(p, q). p div bsz = k \<and> q div bsz = k) M) =
   filter_mset (\<lambda>(p, q). p div bsz = q div bsz \<and> p div bsz < m) M"
proof (induction m)
  case 0
  show ?case by simp
next
  case (Suc m)
  have "filter_mset (\<lambda>(p, q). p div bsz = q div bsz \<and> p div bsz < m) M
        + filter_mset (\<lambda>(p, q). p div bsz = m \<and> q div bsz = m) M =
        filter_mset (\<lambda>(p, q). p div bsz = q div bsz \<and> p div bsz < Suc m) M"
    by (rule multiset_eqI) (auto simp: less_Suc_eq)
  with Suc show ?case by simp
qed

lemma same_batch_pairs:
  assumes "0 < bsz"
  shows "mset (concat (map (\<lambda>k. map (shift (k * bsz)) (pairs (length (batch_at txs bsz k))))
                 [0..<num_batches (length txs) bsz])) =
         mset (filter (\<lambda>(p, q). p div bsz = q div bsz) (pairs (length txs)))"
proof -
  let ?nb = "num_batches (length txs) bsz"
  let ?M = "mset (pairs (length txs))"
  have "mset (concat (map (\<lambda>k. map (shift (k * bsz)) (pairs (length (batch_at txs bsz k))))
                 [0..<?nb])) =
        (\<Sum>k\<leftarrow>[0..<?nb]. mset (map (shift (k * bsz)) (pairs (length (batch_at txs bsz k)))))"
    by (simp add: mset_concat comp_def)
  also have "\<dots> = (\<Sum>k\<leftarrow>[0..<?nb]. filter_mset (\<lambda>(p, q). p div bsz = k \<and> q div bsz = k) ?M)"
    by (simp only: same_batch_mset [OF assms] mset_filter)
  also have "\<dots> = filter_mset (\<lambda>(p, q). p div bsz = q div bsz \<and> p div bsz < ?nb) ?M"
    by (rule split_by_batch)
  also have "\<dots> = filter_mset (\<lambda>(p, q). p div bsz = q div bsz) ?M"
    by (rule filter_mset_cong) (auto simp: set_pairs intro: num_batches_index [OF assms])
  finally show ?thesis by simp
qed

section \<open>The results of a run\<close>

lemma batchSize_pos: "0 < batchSize"
  by (simp add: batchSize_def)

lemma run_batches:
  assumes "batch_count (length txs) batchSize = Inr batches"
  shows "batches = num_batches (length txs) batchSize"
  using assms by (simp add: batch_count_num [OF batchSize_pos])

lemma detectFraud_run_results:
  assumes "batch_count (length txs) batchSize = Inr batches" and "schedule_ok batches sched"
  shows "detectFraud_run batchSize sched txs config =
         Inr \<lparr>transactions = txs,
              results = concat (map (\<lambda>k. processBatch (batch_at txs batchSize k) config) sched)\<rparr>"
proof -
  have "set sched \<subseteq> {0..<num_batches (length txs) batchSize}"
    using schedule_ok_set [OF assms(2)] run_batches [OF assms(1)] by simp
  then show ?thesis
    by (rule detectFraud_run_batches [OF batchSize_pos])
qed

lemma detectFraud_results:
  assumes "batch_count (length txs) batchSize = Inr batches" and "schedule_ok batches sched"
  shows "detectFraud sched txs config =
         Inr (concat (map (\<lambda>k. processBatch (batch_at txs batchSize k) config) sched))"
  by (simp add: detectFraud_def detectFraud_run_results [OF assms])





lemma spec_batch_rules:
  assumes "r \<in> set (spec_batch config batch)"
  shows "is_high r \<or> is_rapid r"
proof -
  from assms obtain i where r: "r \<in> set (spec_position config batch i)"
    by (auto simp: spec_batch_def)
  then show ?thesis
    by (auto simp: spec_position_def spec_high_def spec_pair_def split: if_splits)
qed

lemma slices_elems:
  assumes "0 < bsz"
  shows "map (elems txs) (map (slice_at (length txs) bsz) [0..<num_batches (length txs) bsz]) =
         map (batch_at txs bsz) [0..<num_batches (length txs) bsz]"
  unfolding map_map
proof (rule map_cong [OF refl])
  fix k
  assume "k \<in> set [0..<num_batches (length txs) bsz]"
  then have "k * bsz \<le> length txs"
    using num_batches_start [OF assms, of k "length txs"] by simp
  then show "(elems txs \<circ> slice_at (length txs) bsz) k = batch_at txs bsz k"
    by (simp add: elems_slice_at)
qed

lemma batch_nonempty:
  assumes "0 < bsz" "k < num_batches (length txs) bsz"
  shows "0 < length (batch_at txs bsz k)" "length (batch_at txs bsz k) \<le> bsz"
  using num_batches_start [OF assms] assms(1) by (simp_all add: batch_at_length)

lemma batch_full:
  assumes "0 < bsz" "Suc k < num_batches (length txs) bsz"
  shows "length (batch_at txs bsz k) = bsz"
  using num_batches_start [OF assms] by (simp add: batch_at_length)

lemma position_batch:
  assumes "0 < bsz" "p < n"
  shows "\<exists>!k. k < num_batches n bsz \<and> fst (slice_at n bsz k) \<le> p \<and> p < snd (slice_at n bsz k)"
proof (rule ex1I [of _ "p div bsz"])
  have "p div bsz * bsz \<le> p" by simp
  moreover have "p < p div bsz * bsz + bsz"
    using assms(1) by (metis add.commute dividend_less_div_times)
  ultimately show "p div bsz < num_batches n bsz \<and> fst (slice_at n bsz (p div bsz)) \<le> p
        \<and> p < snd (slice_at n bsz (p div bsz))"
    using assms num_batches_index [OF assms] by (simp add: slice_at_def)
next
  fix k
  assume "k < num_batches n bsz \<and> fst (slice_at n bsz k) \<le> p \<and> p < snd (slice_at n bsz k)"
  then have "bsz * k \<le> p" "p < bsz * Suc k"
    by (simp_all add: slice_at_def mult.commute)
  then show "k = p div bsz"
    by (simp only: div_nat_eqI)
qed

lemma detectFraud_empty: "detectFraud [] [] config = Inr []"
  by (simp add: detectFraud_def detectFraud_run_def partition_batches_def batch_count_def
      batchSize_def spawn_loop.simps run_goroutines_def)

lemma detectFraud_rapid_mset:
  assumes "batch_count (length txs) batchSize = Inr batches" and "schedule_ok batches sched"
  shows "mset (filter is_rapid
            (concat (map (\<lambda>k. processBatch (batch_at txs batchSize k) config) sched))) =
         mset (concat (map (\<lambda>(p, q). spec_pair config (txs ! p) (txs ! q))
            (filter (\<lambda>(p, q). p div batchSize = q div batchSize) (pairs (length txs)))))"
proof -
  let ?nb = "num_batches (length txs) batchSize"
  let ?h = "\<lambda>(p, q). spec_pair config (txs ! p) (txs ! q)"
  let ?F = "\<lambda>k. map (shift (k * batchSize)) (pairs (length (batch_at txs batchSize k)))"
  have sched: "mset sched = mset [0..<?nb]"
    using assms(2) run_batches [OF assms(1)] by (simp add: schedule_ok_def)
  have "filter is_rapid (concat (map (\<lambda>k. processBatch (batch_at txs batchSize k) config) sched)) =
        concat (map (\<lambda>k. concat (map ?h (?F k))) sched)"
    by (simp only: filter_concat_map rapid_batch_at)
  also have "mset \<dots> = mset (concat (map (\<lambda>k. concat (map ?h (?F k))) [0..<?nb]))"
    using sched by (rule mset_concat_map_cong)
  also have "\<dots> = mset (concat (map ?h (concat (map ?F [0..<?nb]))))"
    by (simp only: concat_map_concat_map)
  also have "\<dots> = mset (concat (map ?h
      (filter (\<lambda>(p, q). p div batchSize = q div batchSize) (pairs (length txs)))))"
    using same_batch_pairs [OF batchSize_pos, of txs] by (rule mset_concat_map_cong)
  finally show ?thesis .
qed

lemma map_filter_concat:
  "concat (map (\<lambda>xs. map f (filter P xs)) xss) = map f (filter P (concat xss))"
  by (induction xss) simp_all

lemma detectFraud_high_mset:
  assumes "batch_count (length txs) batchSize = Inr batches" and "schedule_ok batches sched"
  shows "mset (filter is_high
            (concat (map (\<lambda>k. processBatch (batch_at txs batchSize k) config) sched))) =
         mset (map high_result
            (filter (\<lambda>tx. f64_gt (Amount tx) (HighAmountThreshold config)) txs))"
proof -
  let ?nb = "num_batches (length txs) batchSize"
  let ?ex = "\<lambda>tx. f64_gt (Amount tx) (HighAmountThreshold config)"
  have sched: "mset sched = mset [0..<?nb]"
    using assms(2) run_batches [OF assms(1)] by (simp add: schedule_ok_def)
  have "filter is_high (concat (map (\<lambda>k. processBatch (batch_at txs batchSize k) config) sched)) =
        concat (map (\<lambda>k. map high_result (filter ?ex (batch_at txs batchSize k))) sched)"
    by (simp only: filter_concat_map processBatch_spec filter_high_batch)
  also have "mset \<dots> =
        mset (concat (map (\<lambda>k. map high_result (filter ?ex (batch_at txs batchSize k))) [0..<?nb]))"
    using sched by (rule mset_concat_map_cong)
  also have "concat (map (\<lambda>k. map high_result (filter ?ex (batch_at txs batchSize k))) [0..<?nb]) =
        map high_result (filter ?ex (concat (map (batch_at txs batchSize) [0..<?nb])))"
    using map_filter_concat [of high_result ?ex "map (batch_at txs batchSize) [0..<?nb]"]
    by (simp add: comp_def)
  also have "\<dots> = map high_result (filter ?ex txs)"
    by (simp only: concat_all_batches [OF batchSize_pos])
  finally show ?thesis .
qed

lemma no_window_no_pair: "sint (TimeWindow config) \<le> 0 \<Longrightarrow> \<not> rapid_pair config tx nextTx"
  by (simp add: rapid_pair_def)

lemma concat_map_Nil: "(\<And>x. x \<in> set xs \<Longrightarrow> f x = []) \<Longrightarrow> concat (map f xs) = []"
  by (induction xs) simp_all

lemma no_window_no_rapid:
  assumes "sint (TimeWindow config) \<le> 0"
  shows "filter is_rapid (processBatch batch config) = []"
proof -
  have "spec_pair config tx nextTx = []" for tx nextTx
    using no_window_no_pair [OF assms] by (simp add: spec_pair_def)
  then show ?thesis
    by (simp add: processBatch_spec filter_rapid_batch concat_map_Nil split_beta)
qed

lemma results_rules:
  "r \<in> set (concat (map (\<lambda>k. processBatch (batch_at txs bsz k) config) sched)) \<Longrightarrow>
   is_high r \<or> is_rapid r"
  by (auto simp: processBatch_spec dest: spec_batch_rules)

lemma filter_rest:
  assumes "\<And>r. r \<in> set rs \<Longrightarrow> P r \<or> Q r" and "filter Q rs = []"
  shows "filter P rs = rs"
  using assms by (induction rs) (auto split: if_splits)

section \<open>The scenarios, evaluated\<close>

lemma fmtFrac_2m: "fmtFrac 120000000000 9 = ([], 120)"
  by (simp add: fmtFrac_def fmtFrac_loop.simps Let_def)

lemma Duration_String_2m: "Duration_String 120000000000 = ''2m0s''"
  by (simp add: Duration_String_def fmtInt_def fmtFrac_2m digits.simps digit_def Let_def)

lemma fmt_2f_50: "fmt_2f (Finite 50) = ''50.00''"
  by (simp add: fmt_2f_def round_half_even_def digits.simps digit_def)

lemma fmt_2f_60: "fmt_2f (Finite 60) = ''60.00''"
  by (simp add: fmt_2f_def round_half_even_def digits.simps digit_def)

lemma fmt_2f_1500: "fmt_2f (Finite 1500) = ''1500.00''"
  by (simp add: fmt_2f_def round_half_even_def digits.simps digit_def)

lemma scenarioA_rapid: "rapid_pair scenario_config scenarioA_first scenarioA_second"
  by (simp add: rapid_pair_def elapsed_def scenario_config_def scenarioA_first_def
      scenarioA_second_def)

lemma scenarioA_elapsed: "elapsed scenarioA_first scenarioA_second = 120000000000"
  by (simp add: elapsed_def scenarioA_first_def scenarioA_second_def)

lemma scenarioA_earlier:
  "earlier_result scenarioA_first scenarioA_second =
   \<lparr>Transaction = scenarioA_first, Reason = ''Rapid transaction: 2m0s later with $60.00''\<rparr>"
  by (simp add: earlier_result_def scenarioA_elapsed Duration_String_2m)
     (simp add: scenarioA_second_def fmt_2f_60)

lemma scenarioA_later:
  "later_result scenarioA_first scenarioA_second =
   \<lparr>Transaction = scenarioA_second,
    Reason = ''Rapid transaction: following $50.00 after 2m0s''\<rparr>"
  by (simp add: later_result_def scenarioA_elapsed Duration_String_2m)
     (simp add: scenarioA_first_def fmt_2f_50)

lemma scenarioB_high:
  "high_result scenarioB_tx = \<lparr>Transaction = scenarioB_tx, Reason = ''High amount: $1500.00''\<rparr>"
  by (simp add: high_result_def) (simp add: scenarioB_tx_def fmt_2f_1500)

lemma scenarioB_exceeds: "f64_gt (Amount scenarioB_tx) (HighAmountThreshold scenario_config)"
  by (simp add: scenarioB_tx_def scenario_config_def)

lemma scenarioBA_rapid: "rapid_pair scenario_config scenarioB_tx scenarioA_second"
  by (simp add: rapid_pair_def elapsed_def scenario_config_def scenarioB_tx_def
      scenarioA_second_def)

lemma scenarioBA_elapsed: "elapsed scenarioB_tx scenarioA_second = 120000000000"
  by (simp add: elapsed_def scenarioB_tx_def scenarioA_second_def)

lemma scenarioBA_earlier:
  "earlier_result scenarioB_tx scenarioA_second =
   \<lparr>Transaction = scenarioB_tx, Reason = ''Rapid transaction: 2m0s later with $60.00''\<rparr>"
  by (simp add: earlier_result_def scenarioBA_elapsed Duration_String_2m)
     (simp add: scenarioA_second_def fmt_2f_60)

lemma scenarioBA_later:
  "later_result scenarioB_tx scenarioA_second =
   \<lparr>Transaction = scenarioA_second,
    Reason = ''Rapid transaction: following $1500.00 after 2m0s''\<rparr>"
  by (simp add: later_result_def scenarioBA_elapsed Duration_String_2m)
     (simp add: scenarioB_tx_def fmt_2f_1500)

lemma scenarioA_second_quiet:
  "\<not> f64_gt (Amount scenarioA_second) (HighAmountThreshold scenario_config)"
  by (simp add: scenarioA_second_def scenario_config_def)

lemma pairs_2: "pairs (Suc (Suc 0)) = [(0, Suc 0)]"
  by (simp add: pairs_def)

lemma scenarioC_length: "length scenarioC_txs = 150"
  by (simp add: scenarioC_txs_def)

lemma scenarioC_count: "batch_count (length scenarioC_txs) batchSize = Inr 2"
  by (simp add: scenarioC_length batch_count_def batchSize_def)

lemma upt_2: "[0..<2] = [0, Suc 0]"
  by (simp add: numeral_2_eq_2)

lemma schedule_01: "schedule_ok 2 [0, 1]"
  by (simp add: schedule_ok_def upt_2)


lemma scenarioC_nth: "k < 150 \<Longrightarrow> scenarioC_txs ! k = scenarioC_tx k"
  by (simp add: scenarioC_txs_def)

lemma scenarioC_rapid_iff:
  assumes "p < 150" "q < 150"
  shows "rapid_pair scenario_config (scenarioC_txs ! p) (scenarioC_txs ! q) \<longleftrightarrow> p = 99 \<and> q = 100"
  using assms
  by (simp add: scenarioC_nth rapid_pair_def elapsed_def scenarioC_tx_def scenario_config_def)

lemma scenarioC_boundary_pair:
  "rapid_pair scenario_config (scenarioC_txs ! 99) (scenarioC_txs ! 100)"
  by (simp add: scenarioC_rapid_iff)

lemma scenarioC_no_same_batch_pair:
  "concat (map
     (\<lambda>(p, q). if rapid_pair scenario_config (scenarioC_txs ! p) (scenarioC_txs ! q)
                then [earlier_result (scenarioC_txs ! p) (scenarioC_txs ! q),
                      later_result (scenarioC_txs ! p) (scenarioC_txs ! q)]
                else [])
     (filter (\<lambda>(p, q). p div batchSize = q div batchSize) (pairs (length scenarioC_txs)))) = []"
proof (rule concat_map_Nil)
  fix x :: "nat \<times> nat"
  assume x: "x \<in> set (filter (\<lambda>(p, q). p div batchSize = q div batchSize)
                     (pairs (length scenarioC_txs)))"
  obtain p q where pq: "x = (p, q)" by (cases x)
  from x have "p < q" "q < 150" "p div 100 = q div 100"
    by (simp_all add: pq set_pairs scenarioC_length batchSize_def)
  then have "\<not> rapid_pair scenario_config (scenarioC_txs ! p) (scenarioC_txs ! q)"
    by (auto simp: scenarioC_rapid_iff)
  then show "(case x of (p, q) \<Rightarrow>
      if rapid_pair scenario_config (scenarioC_txs ! p) (scenarioC_txs ! q)
      then [earlier_result (scenarioC_txs ! p) (scenarioC_txs ! q),
            later_result (scenarioC_txs ! p) (scenarioC_txs ! q)]
      else []) = []"
    by (simp add: pq)
qed

lemma single_count: "batch_count (length [tx]) batchSize = Inr 1"
  by (simp add: batch_count_def batchSize_def)

lemma schedule_0: "schedule_ok 1 [0]"
  by (simp add: schedule_ok_def)

lemma negative_window: "sint (TimeWindow negative_window_config) \<le> 0"
  by (simp add: negative_window_config_def)

lemma scenarioB_exceeds_negative:
  "f64_gt (Amount scenarioB_tx) (HighAmountThreshold negative_window_config)"
  by (simp add: scenarioB_tx_def negative_window_config_def)

lemma zero_window: "sint (TimeWindow zero_window_config) \<le> 0"
  by (simp add: zero_window_config_def)

lemma scenarioB_exceeds_zero:
  "f64_gt (Amount scenarioB_tx) (HighAmountThreshold zero_window_config)"
  by (simp add: scenarioB_tx_def zero_window_config_def)

lemma single_batch: "batch_at [tx] batchSize 0 = [tx]"
  by (simp add: batch_at_def batchSize_def)

lemma spec_batch_single: "spec_batch config [tx] = spec_high config tx"
  by (simp add: spec_batch_def spec_position_def)

section \<open>The rule engine\<close>

text \<open>
  Claim C1 (Rule B, rapid succession). The rapid-succession results of a batch are, pair
  by pair of positions \<open>i < j\<close> in the order of the two loops, the two results of the
  pair when both transactions have the same account and the difference of their
  timestamps is strictly between zero and the time window, and nothing otherwise: a
  difference of zero, a negative one and one equal to or above the window give no result.
  The first of the two results carries the transaction at \<open>i\<close>, and its reason names
  the elapsed time and the later amount; the second carries the transaction at \<open>j\<close>,
  and its reason names the earlier amount and the elapsed time. The difference is the
  one of the integers: \<open>Sub\<close> saturates, and the test on its result is the same test.
\<close>

theorem processBatch_rapid_pairs:
  "filter is_rapid (processBatch batch config) =
     concat (map (\<lambda>(i, j). if rapid_pair config (batch ! i) (batch ! j)
                            then [earlier_result (batch ! i) (batch ! j),
                                  later_result (batch ! i) (batch ! j)]
                            else [])
                 (pairs (length batch)))"
  using filter_rapid_batch [of config batch]
  by (simp only: processBatch_spec spec_pair_def)

text \<open>Scenario A: two results, both of the rapid-succession rule.\<close>

theorem processBatch_rapid_pairs_witness:
  "filter is_rapid (processBatch [scenarioA_first, scenarioA_second] scenario_config) =
     [\<lparr>Transaction = scenarioA_first, Reason = ''Rapid transaction: 2m0s later with $60.00''\<rparr>,
      \<lparr>Transaction = scenarioA_second,
       Reason = ''Rapid transaction: following $50.00 after 2m0s''\<rparr>]"
  using processBatch_rapid_pairs [of "[scenarioA_first, scenarioA_second]" scenario_config]
  by (simp add: pairs_2 scenarioA_rapid scenarioA_earlier scenarioA_later)

text \<open>
  Claim C2 (Rule A, high amount). The high-amount results of a batch are one result for
  each transaction whose amount is greater than the threshold, in the order of the
  batch, and none for the other transactions; an amount equal to the threshold is not
  greater. The result carries the transaction, and its reason is the name of the rule
  followed by the amount printed with two decimals.
\<close>

theorem processBatch_high_amount:
  "filter is_high (processBatch batch config) =
     map high_result (filter (\<lambda>tx. f64_gt (Amount tx) (HighAmountThreshold config)) batch)
   \<and> Transaction (high_result tx) = tx
   \<and> Reason (high_result tx) = ''High amount: $'' @ fmt_2f (Amount tx)
   \<and> \<not> f64_gt (HighAmountThreshold config) (HighAmountThreshold config)"
  by (simp add: processBatch_spec filter_high_batch high_result_def f64_gt_irrefl)

text \<open>Scenario B: one result, whose reason holds the amount as 1500.00.\<close>

theorem processBatch_high_amount_witness:
  "filter is_high (processBatch [scenarioB_tx] scenario_config) =
     [\<lparr>Transaction = scenarioB_tx, Reason = ''High amount: $1500.00''\<rparr>]"
  using processBatch_high_amount [of "[scenarioB_tx]" scenario_config scenarioB_tx]
  by (simp add: scenarioB_exceeds scenarioB_high)

text \<open>
  Claim C10 (order of a batch's results). The results of a batch are the results of its
  positions in ascending order; the results of position \<open>i\<close> are its high-amount
  result, if there is one, followed by the results of the pairs \<open>(i, j)\<close> in ascending
  order of \<open>j\<close>; and a qualifying pair gives its two results side by side, the earlier
  transaction's first.
\<close>

theorem processBatch_order:
  "processBatch batch config =
     concat (map (\<lambda>i.
        (if f64_gt (Amount (batch ! i)) (HighAmountThreshold config)
         then [high_result (batch ! i)] else [])
        @ concat (map (\<lambda>j.
            if rapid_pair config (batch ! i) (batch ! j)
            then [earlier_result (batch ! i) (batch ! j), later_result (batch ! i) (batch ! j)]
            else [])
          [Suc i..<length batch]))
      [0..<length batch])"
proof -
  have "spec_position config batch = (\<lambda>i.
        (if f64_gt (Amount (batch ! i)) (HighAmountThreshold config)
         then [high_result (batch ! i)] else [])
        @ concat (map (\<lambda>j.
            if rapid_pair config (batch ! i) (batch ! j)
            then [earlier_result (batch ! i) (batch ! j), later_result (batch ! i) (batch ! j)]
            else [])
          [Suc i..<length batch]))"
    by (rule ext) (simp only: spec_position_def spec_high_def spec_pair_def)
  then show ?thesis
    by (simp only: processBatch_spec spec_batch_def)
qed

text \<open>
  A transaction above the threshold followed, two minutes later, by one of the same
  account: the high-amount result comes first, then the two results of the pair.
\<close>

theorem processBatch_order_witness:
  "processBatch [scenarioB_tx, scenarioA_second] scenario_config =
     [\<lparr>Transaction = scenarioB_tx, Reason = ''High amount: $1500.00''\<rparr>,
      \<lparr>Transaction = scenarioB_tx, Reason = ''Rapid transaction: 2m0s later with $60.00''\<rparr>,
      \<lparr>Transaction = scenarioA_second,
       Reason = ''Rapid transaction: following $1500.00 after 2m0s''\<rparr>]"
  using processBatch_order [of "[scenarioB_tx, scenarioA_second]" scenario_config]
  by (simp add: scenarioB_exceeds scenarioB_high scenarioBA_rapid scenarioBA_earlier
      scenarioBA_later scenarioA_second_quiet)

section \<open>The partition and the scheduler\<close>

text \<open>
  Claim C3 (the partition). For a batch size above zero the slicing does not fail, and
  the number of batches is the length of the input divided by the batch size and
  rounded up. Batch \<open>k\<close> is the slice from offset \<open>k * bsz\<close> to \<open>k * bsz + bsz\<close>, or
  to the end of the input when that comes first, so the batches are contiguous, do not
  overlap and keep the order of the input; put end to end they are the input. No batch
  is empty or longer than the batch size, every batch but the last has exactly that
  size, and every position of the input lies in exactly one batch. An empty input has
  no batch, and its detection run returns no result and no error.
\<close>

theorem partition_covers:
  assumes "0 < bsz"
  shows "\<exists>batches. partition_batches txs bsz = Inr batches
           \<and> length batches = (length txs + bsz - 1) div bsz
           \<and> (\<forall>k<length batches. batches ! k = (k * bsz, min (k * bsz + bsz) (length txs)))
           \<and> concat (map (elems txs) batches) = txs
           \<and> (\<forall>k<length batches. elems txs (batches ! k) \<noteq> []
                  \<and> length (elems txs (batches ! k)) \<le> bsz)
           \<and> (\<forall>k. Suc k < length batches \<longrightarrow> length (elems txs (batches ! k)) = bsz)
           \<and> (\<forall>p<length txs. \<exists>!k. k < length batches
                  \<and> fst (batches ! k) \<le> p \<and> p < snd (batches ! k))
           \<and> (txs = [] \<longrightarrow> batches = [] \<and> detectFraud [] txs config = Inr [])"
proof -
  let ?n = "length txs"
  let ?nb = "num_batches ?n bsz"
  let ?batches = "map (slice_at ?n bsz) [0..<?nb]"
  have part: "partition_batches txs bsz = Inr ?batches"
    using assms by (rule partition_slices)
  have len: "length ?batches = (?n + bsz - 1) div bsz"
    by (simp add: num_batches_ceil [OF assms])
  have nth: "\<forall>k<length ?batches. ?batches ! k = (k * bsz, min (k * bsz + bsz) ?n)"
    by (simp add: slice_at_def)
  have cover: "concat (map (elems txs) ?batches) = txs"
    by (simp only: slices_elems [OF assms] concat_all_batches [OF assms])
  have el: "elems txs (?batches ! k) = batch_at txs bsz k" if "k < ?nb" for k
  proof -
    have "map (elems txs) ?batches ! k = map (batch_at txs bsz) [0..<?nb] ! k"
      by (simp only: slices_elems [OF assms])
    with that show ?thesis by simp
  qed
  have sizes: "\<forall>k<length ?batches. elems txs (?batches ! k) \<noteq> []
                 \<and> length (elems txs (?batches ! k)) \<le> bsz"
  proof (intro allI impI)
    fix k assume "k < length ?batches"
    then have k: "k < ?nb" by simp
    show "elems txs (?batches ! k) \<noteq> [] \<and> length (elems txs (?batches ! k)) \<le> bsz"
      using batch_nonempty [OF assms k] by (simp only: el [OF k]) auto
  qed
  have full: "\<forall>k. Suc k < length ?batches \<longrightarrow> length (elems txs (?batches ! k)) = bsz"
  proof (intro allI impI)
    fix k assume "Suc k < length ?batches"
    then have k: "Suc k < ?nb" by simp
    then have "k < ?nb" by simp
    then show "length (elems txs (?batches ! k)) = bsz"
      using batch_full [OF assms k] by (simp only: el)
  qed
  have once: "\<forall>p<?n. \<exists>!k. k < length ?batches
                  \<and> fst (?batches ! k) \<le> p \<and> p < snd (?batches ! k)"
  proof (intro allI impI)
    fix p assume p: "p < ?n"
    have "(k < length ?batches \<and> fst (?batches ! k) \<le> p \<and> p < snd (?batches ! k)) \<longleftrightarrow>
          (k < ?nb \<and> fst (slice_at ?n bsz k) \<le> p \<and> p < snd (slice_at ?n bsz k))" for k
      by auto
    then show "\<exists>!k. k < length ?batches \<and> fst (?batches ! k) \<le> p \<and> p < snd (?batches ! k)"
      using position_batch [OF assms p] by simp
  qed
  have empty: "txs = [] \<longrightarrow> ?batches = [] \<and> detectFraud [] txs config = Inr []"
    by (simp add: num_batches_def detectFraud_empty)
  from part len nth cover sizes full once empty show ?thesis
    by blast
qed

text \<open>Scenario C: 150 transactions are cut into a batch of 100 and a batch of 50.\<close>

theorem partition_covers_witness:
  "0 < batchSize \<and> partition_batches scenarioC_txs batchSize = Inr [(0, 100), (100, 150)]"
proof -
  from partition_covers [OF batchSize_pos, of scenarioC_txs]
  obtain batches where part: "partition_batches scenarioC_txs batchSize = Inr batches"
    and len: "length batches = (length scenarioC_txs + batchSize - 1) div batchSize"
    and nth: "\<forall>k<length batches. batches ! k =
                (k * batchSize, min (k * batchSize + batchSize) (length scenarioC_txs))"
    by blast
  from len have len2: "length batches = Suc (Suc 0)"
    by (simp add: scenarioC_length batchSize_def)
  then obtain a b where ab: "batches = [a, b]"
    by (metis length_Suc_conv length_0_conv)
  from nth len2 have "batches ! 0 = (0, 100)" "batches ! Suc 0 = (100, 150)"
    by (simp_all add: scenarioC_length batchSize_def)
  with ab have "batches = [(0, 100), (100, 150)]" by simp
  with part batchSize_pos show ?thesis by simp
qed

text \<open>
  Claim C4 (pairs across a batch boundary). Whatever the schedule, the rapid-succession
  results of a run are, as a multiset, the results of the qualifying pairs of
  positions \<open>p < q\<close> of the input that lie in one batch, that is with
  \<open>p div batchSize = q div batchSize\<close>. A pair whose positions lie in two batches
  adds nothing, whether it qualifies or not.
\<close>

theorem detectFraud_same_batch_pairs_only:
  assumes "batch_count (length txs) batchSize = Inr batches" and "schedule_ok batches sched"
  shows "\<exists>rs. detectFraud sched txs config = Inr rs
           \<and> mset (filter is_rapid rs) =
             mset (concat (map
               (\<lambda>(p, q). if rapid_pair config (txs ! p) (txs ! q)
                          then [earlier_result (txs ! p) (txs ! q),
                                later_result (txs ! p) (txs ! q)]
                          else [])
               (filter (\<lambda>(p, q). p div batchSize = q div batchSize) (pairs (length txs)))))"
  using detectFraud_rapid_mset [OF assms, of config]
  by (simp only: detectFraud_results [OF assms] spec_pair_def) blast

text \<open>
  Scenario C: the pair at positions 99 and 100 qualifies, its positions lie in the
  first and in the second batch, and the run has no rapid-succession result.
\<close>

theorem detectFraud_same_batch_pairs_only_witness:
  "batch_count (length scenarioC_txs) batchSize = Inr 2 \<and> schedule_ok 2 [0, 1]
   \<and> rapid_pair scenario_config (scenarioC_txs ! 99) (scenarioC_txs ! 100)
   \<and> (\<exists>rs. detectFraud [0, 1] scenarioC_txs scenario_config = Inr rs
          \<and> filter is_rapid rs = [])"
  using detectFraud_same_batch_pairs_only [OF scenarioC_count schedule_01, of scenario_config]
    scenarioC_boundary_pair scenarioC_count schedule_01
  by (simp only: scenarioC_no_same_batch_pair) auto

text \<open>
  Claim C5 (invalid configuration), as the code has it. The claim is that a batch size
  or a time window that is not positive makes the run signal an InvalidConfiguration
  error and return no result. \<open>detectFraud\<close> has no such check and no error to
  return. With a window of zero and one transaction of 1500 dollars it returns the
  high-amount result of that transaction:
\<close>

theorem detectFraud_zero_window_counterexample:
  "sint (TimeWindow zero_window_config) \<le> 0
   \<and> detectFraud [0] [scenarioB_tx] zero_window_config =
       Inr [\<lparr>Transaction = scenarioB_tx, Reason = ''High amount: $1500.00''\<rparr>]"
  by (simp add: zero_window detectFraud_results [OF single_count schedule_0] single_batch
      processBatch_spec spec_batch_single spec_high_def scenarioB_exceeds_zero scenarioB_high)

text \<open>
  Claim C5, amended. The batch size is the constant 100, which is positive. With a time
  window that is not positive the run signals no error, and its results hold the
  high-amount result of every transaction whose amount is greater than the threshold.
\<close>

theorem detectFraud_no_configuration_error:
  assumes "batch_count (length txs) batchSize = Inr batches" and "schedule_ok batches sched"
    and "sint (TimeWindow config) \<le> 0"
  shows "0 < batchSize
         \<and> (\<exists>rs. detectFraud sched txs config = Inr rs
               \<and> (\<forall>tx \<in> set txs. f64_gt (Amount tx) (HighAmountThreshold config)
                      \<longrightarrow> high_result tx \<in> set rs))"
proof -
  let ?rs = "concat (map (\<lambda>k. processBatch (batch_at txs batchSize k) config) sched)"
  let ?ex = "\<lambda>tx. f64_gt (Amount tx) (HighAmountThreshold config)"
  have "set (filter is_high ?rs) = set (map high_result (filter ?ex txs))"
    using detectFraud_high_mset [OF assms(1,2), of config] by (rule mset_eq_setD)
  moreover have "high_result tx \<in> set (map high_result (filter ?ex txs))"
    if "tx \<in> set txs" "?ex tx" for tx
    using that by simp
  ultimately have "high_result tx \<in> set ?rs" if "tx \<in> set txs" "?ex tx" for tx
    using that by (metis (no_types, lifting) filter_is_subset subsetD)
  then show ?thesis
    by (simp add: batchSize_pos detectFraud_results [OF assms(1,2)])
qed

theorem detectFraud_no_configuration_error_witness:
  "sint (TimeWindow zero_window_config) \<le> 0
   \<and> (\<exists>rs. detectFraud [0] [scenarioB_tx] zero_window_config = Inr rs
          \<and> high_result scenarioB_tx \<in> set rs)"
  using detectFraud_no_configuration_error [OF single_count schedule_0 zero_window, of scenarioB_tx]
    zero_window scenarioB_exceeds_zero
  by auto







text \<open>
  Claim C9 (a window that is not positive). With a time window of zero or below the
  run does not fail, it has no rapid-succession result, and its results are, as a
  multiset, the high-amount results of the transactions whose amount is greater than
  the threshold.
\<close>

theorem detectFraud_non_positive_window:
  assumes "batch_count (length txs) batchSize = Inr batches" and "schedule_ok batches sched"
    and "sint (TimeWindow config) \<le> 0"
  shows "\<exists>rs. detectFraud sched txs config = Inr rs
           \<and> filter is_rapid rs = []
           \<and> mset rs = mset (map high_result
                 (filter (\<lambda>tx. f64_gt (Amount tx) (HighAmountThreshold config)) txs))"
proof -
  let ?rs = "concat (map (\<lambda>k. processBatch (batch_at txs batchSize k) config) sched)"
  have rapid: "filter is_rapid ?rs = []"
    by (simp add: filter_concat_map no_window_no_rapid [OF assms(3)])
  have "filter is_high ?rs = ?rs"
    using results_rules rapid by (rule filter_rest)
  with detectFraud_high_mset [OF assms(1,2), of config]
  have "mset ?rs = mset (map high_result
                 (filter (\<lambda>tx. f64_gt (Amount tx) (HighAmountThreshold config)) txs))"
    by simp
  with rapid show ?thesis
    by (simp add: detectFraud_results [OF assms(1,2)])
qed

text \<open>A window of minus five minutes and one transaction of 1500 dollars.\<close>

theorem detectFraud_non_positive_window_witness:
  "sint (TimeWindow negative_window_config) \<le> 0
   \<and> detectFraud [0] [scenarioB_tx] negative_window_config =
       Inr [\<lparr>Transaction = scenarioB_tx, Reason = ''High amount: $1500.00''\<rparr>]"
  using detectFraud_non_positive_window [OF single_count schedule_0 negative_window, of scenarioB_tx]
    negative_window
  by (auto simp: scenarioB_exceeds_negative scenarioB_high)

end
